theory Spec2Isabelle
  imports Main "HOL-Library.Char_ord" "HOL-Library.List_Lexorder" "HOL-Library.Product_Lexorder"
    "HOL-Library.Multiset"
begin

section \<open>Python values used by \<open>import/hgnc_families.py\<close>\<close>

text \<open>
  The script is Python 3. A \<open>str\<close> is modelled as a HOL \<open>string\<close>, each \<open>char\<close> standing
  for one code point below 256 (HGNC identifiers, symbols and family names are ASCII).
  Every exception the script can raise is a value of \<open>error\<close>; a computation that can raise
  returns \<open>error + 'a\<close>, with \<open>Inl\<close> for the exception that leaves the function.
\<close>

datatype error =
    KeyError string
  | TypeError
  | ValueError
  | IndexError
  | RecursionError

definition newline :: char where
  "newline = CHR 0x0A"

text \<open>\<open>str.strip()\<close> removes leading and trailing whitespace; below code point 256 the
  characters for which \<open>str.isspace\<close> holds are 9..13, 28..32, 133 and 160.\<close>

definition is_space :: "char \<Rightarrow> bool" where
  "is_space c = (c \<in> set [CHR 0x09, CHR 0x0A, CHR 0x0B, CHR 0x0C, CHR 0x0D,
                            CHR 0x1C, CHR 0x1D, CHR 0x1E, CHR 0x1F, CHR 0x20,
                            CHR 0x85, CHR 0xA0])"

definition strip :: "string \<Rightarrow> string" where
  "strip s = rev (dropWhile is_space (rev (dropWhile is_space s)))"

text \<open>\<open>s.replace(old, new)\<close>: every non-overlapping occurrence of \<open>old\<close>, scanning from the
  left, becomes \<open>new\<close>. With an empty \<open>old\<close> Python inserts \<open>new\<close> before every character
  and at the end.\<close>

function replace_scan :: "string \<Rightarrow> string \<Rightarrow> string \<Rightarrow> string" where
  "replace_scan old new s =
     (if old = [] \<or> s = [] then s
      else if take (length old) s = old then new @ replace_scan old new (drop (length old) s)
      else hd s # replace_scan old new (tl s))"
  by pat_completeness auto
termination
  by (relation "measure (\<lambda>(old, new, s). length s)") auto

definition replace :: "string \<Rightarrow> string \<Rightarrow> string \<Rightarrow> string" where
  "replace s old new =
     (if old = [] then new @ concat (map (\<lambda>c. c # new) s) else replace_scan old new s)"

section \<open>Identifier normalisation\<close>

text \<open>A family record is the dict built from one row of \<open>family.csv\<close>: field name to value.\<close>

type_synonym family = "string \<rightharpoonup> string"

definition replaces :: "(string \<times> string) list" where
  "replaces = [('' '', ''_''), (''-'', ''_''), ('','', '''')]"

definition get_famplex_id :: "family \<Rightarrow> error + string" where
  "get_famplex_id family =
     (case family ''abbreviation'' of
        None \<Rightarrow> Inl (KeyError ''abbreviation'')
      | Some abbreviation \<Rightarrow>
          if abbreviation \<noteq> [] then Inr (replace (strip abbreviation) '', '' ''_'')
          else (case family ''name'' of
                  None \<Rightarrow> Inl (KeyError ''name'')
                | Some n \<Rightarrow> Inr (foldl (\<lambda>name (k, v). replace name k v) (strip n) replaces)))"

subsection \<open>The pseudogene pattern\<close>

text \<open>
  \<open>is_pseudogene\<close> is \<open>re.match(r'^.*\d+P$', gene) is not None\<close>. The pattern is embedded as
  a regular expression over character classes and matched with derivatives. \<open>.\<close> is any
  character but a newline, \<open>\d\<close> a decimal digit. \<open>$\<close> succeeds at the end of the string
  and also just before a newline that is the last character.
\<close>

datatype cclass = AnyChar | NotNewline | Digit | Lit char

fun cc_match :: "cclass \<Rightarrow> char \<Rightarrow> bool" where
  "cc_match AnyChar c = True"
| "cc_match NotNewline c = (c \<noteq> newline)"
| "cc_match Digit c = (c \<in> set ''0123456789'')"
| "cc_match (Lit a) c = (c = a)"

datatype regex = Zero | One | Atom cclass | Alt regex regex | Seq regex regex | Star regex

abbreviation Plus :: "regex \<Rightarrow> regex" where
  "Plus r \<equiv> Seq r (Star r)"

fun nullable :: "regex \<Rightarrow> bool" where
  "nullable Zero = False"
| "nullable One = True"
| "nullable (Atom a) = False"
| "nullable (Alt r s) = (nullable r \<or> nullable s)"
| "nullable (Seq r s) = (nullable r \<and> nullable s)"
| "nullable (Star r) = True"

fun deriv :: "char \<Rightarrow> regex \<Rightarrow> regex" where
  "deriv c Zero = Zero"
| "deriv c One = Zero"
| "deriv c (Atom a) = (if cc_match a c then One else Zero)"
| "deriv c (Alt r s) = Alt (deriv c r) (deriv c s)"
| "deriv c (Seq r s) =
     (if nullable r then Alt (Seq (deriv c r) s) (deriv c s) else Seq (deriv c r) s)"
| "deriv c (Star r) = Seq (deriv c r) (Star r)"

fun fullmatch :: "regex \<Rightarrow> string \<Rightarrow> bool" where
  "fullmatch r [] = nullable r"
| "fullmatch r (c # cs) = fullmatch (deriv c r) cs"

text \<open>\<open>re.match('^' + r + '$', s) is not None\<close>.\<close>

definition match_to_dollar :: "regex \<Rightarrow> string \<Rightarrow> bool" where
  "match_to_dollar r s =
     (fullmatch r s \<or> (s \<noteq> [] \<and> last s = newline \<and> fullmatch r (butlast s)))"

definition pseudogene_pattern :: regex where
  "pseudogene_pattern = Seq (Star (Atom NotNewline)) (Seq (Plus (Atom Digit)) (Atom (Lit CHR ''P'')))"

definition is_pseudogene :: "string \<Rightarrow> bool" where
  "is_pseudogene gene = match_to_dollar pseudogene_pattern gene"

text \<open>The pattern as the specification words it: one or more arbitrary characters, one or
  more digits, a literal \<open>P\<close>, matched end to end.\<close>

definition spec_pseudogene_pattern :: regex where
  "spec_pseudogene_pattern = Seq (Plus (Atom AnyChar)) (Seq (Plus (Atom Digit)) (Atom (Lit CHR ''P'')))"

definition spec_is_pseudogene :: "string \<Rightarrow> bool" where
  "spec_is_pseudogene s = fullmatch spec_pseudogene_pattern s"

text \<open>The language of a regular expression, to say what \<open>fullmatch\<close> decides.\<close>

inductive_set star :: "string set \<Rightarrow> string set" for A :: "string set" where
  star_nil: "[] \<in> star A"
| star_app: "u \<in> A \<Longrightarrow> v \<in> star A \<Longrightarrow> u @ v \<in> star A"

fun lang :: "regex \<Rightarrow> string set" where
  "lang Zero = {}"
| "lang One = {[]}"
| "lang (Atom a) = {[c] | c. cc_match a c}"
| "lang (Alt r s) = lang r \<union> lang s"
| "lang (Seq r s) = {u @ v | u v. u \<in> lang r \<and> v \<in> lang s}"
| "lang (Star r) = star (lang r)"

section \<open>The catalog and the hierarchy flattener\<close>

text \<open>
  The module-level tables \<open>families\<close>, \<open>children\<close>, \<open>gene_to_family\<close> and \<open>family_to_gene\<close>,
  together with the external resolver \<open>hgnc_client.get_hgnc_name\<close> (which answers \<open>None\<close>
  for an identifier it does not know), form the catalog the flattener reads.
  \<open>children\<close> is only read with \<open>.get\<close>; \<open>family_to_gene\<close> is a \<open>defaultdict(list)\<close> read by
  subscript, so a missing key reads as the empty list.
\<close>

record catalog =
  families :: "string \<rightharpoonup> family"
  children :: "string \<rightharpoonup> string list"
  gene_to_family :: "string \<rightharpoonup> string list"
  family_to_gene :: "string \<rightharpoonup> string list"
  get_hgnc_name :: "string \<Rightarrow> string option"

definition dd_get :: "('k \<rightharpoonup> 'v list) \<Rightarrow> 'k \<Rightarrow> 'v list" where
  "dd_get m k = (case m k of None \<Rightarrow> [] | Some v \<Rightarrow> v)"

text \<open>A relation is the 6-tuple (source namespace, source id, relation, target namespace,
  target id, id of the family the call was made for).\<close>

type_synonym relation = "string \<times> string \<times> string \<times> string \<times> string \<times> string"

fun src_ns :: "relation \<Rightarrow> string" where "src_ns (a, b, c, d, e, f) = a"
fun src_id :: "relation \<Rightarrow> string" where "src_id (a, b, c, d, e, f) = b"
fun rel_kind :: "relation \<Rightarrow> string" where "rel_kind (a, b, c, d, e, f) = c"
fun tgt_ns :: "relation \<Rightarrow> string" where "tgt_ns (a, b, c, d, e, f) = d"
fun tgt_id :: "relation \<Rightarrow> string" where "tgt_id (a, b, c, d, e, f) = e"
fun root_of :: "relation \<Rightarrow> string" where "root_of (a, b, c, d, e, f) = f"

text \<open>The state a traversal threads: the shared accumulator \<open>relations\<close> and the lines
  printed so far. An exception carries the lines printed before it was raised.\<close>

record st =
  relations :: "relation list"
  stdout :: "string list"

type_synonym 'a result = "(error \<times> string list) + 'a"

definition emit :: "relation \<Rightarrow> st \<Rightarrow> st" where
  "emit r s = s\<lparr>relations := relations s @ [r]\<rparr>"

definition print :: "string \<Rightarrow> st \<Rightarrow> st" where
  "print line s = s\<lparr>stdout := stdout s @ [line]\<rparr>"

definition skip_msg :: "string \<Rightarrow> string" where
  "skip_msg gene_name = ''Assuming '' @ gene_name @ '' is a pseudogene, skipping''"

definition link_msg :: "string \<Rightarrow> string \<Rightarrow> string \<Rightarrow> string" where
  "link_msg child_id gene_name famplex_id =
     ''HGNC family '' @ child_id @ '' has one gene member '' @ gene_name @
     '' which will be linked directly to '' @ famplex_id"

text \<open>Lines 92 to 98: the loop over the direct gene members. \<open>is_pseudogene(None)\<close> is
  \<open>re.match\<close> on \<open>None\<close>, which raises \<open>TypeError\<close>.\<close>

fun gene_loop :: "catalog \<Rightarrow> string \<Rightarrow> string \<Rightarrow> string list \<Rightarrow> st \<Rightarrow> st result" where
  "gene_loop cat famplex_id root_id [] s = Inr s"
| "gene_loop cat famplex_id root_id (gene # rest) s =
     (case get_hgnc_name cat gene of
        None \<Rightarrow> Inl (TypeError, stdout s)
      | Some gene_name \<Rightarrow>
          if is_pseudogene gene_name
          then gene_loop cat famplex_id root_id rest (print (skip_msg gene_name) s)
          else gene_loop cat famplex_id root_id rest
                 (emit (''HGNC'', gene_name, ''isa'', ''FPLX'', famplex_id, root_id) s))"

text \<open>
  \<open>get_relations_from_root\<close> calls itself for every child that is not collapsed, to a depth
  the hierarchy decides. The first argument is the number of nested calls the interpreter
  still allows; when none is left the call raises \<open>RecursionError\<close>, which is how a cyclic
  hierarchy ends. \<open>child_loop\<close> is the loop of lines 102 to 127.
\<close>

fun get_relations_from_root :: "nat \<Rightarrow> catalog \<Rightarrow> string \<Rightarrow> st \<Rightarrow> st result"
and child_loop :: "nat \<Rightarrow> catalog \<Rightarrow> string \<Rightarrow> string \<Rightarrow> string list \<Rightarrow> st \<Rightarrow> st result" where
  "get_relations_from_root 0 cat root_id s = Inl (RecursionError, stdout s)"
| "get_relations_from_root (Suc depth) cat root_id s =
     (case families cat root_id of
        None \<Rightarrow> Inl (KeyError root_id, stdout s)
      | Some family_info \<Rightarrow>
          (case get_famplex_id family_info of
             Inl e \<Rightarrow> Inl (e, stdout s)
           | Inr famplex_id \<Rightarrow>
               (case gene_loop cat famplex_id root_id (dd_get (family_to_gene cat) root_id) s of
                  Inl e \<Rightarrow> Inl e
                | Inr s' \<Rightarrow>
                    (case children cat root_id of
                       None \<Rightarrow> Inr s'
                     | Some child_ids \<Rightarrow> child_loop depth cat famplex_id root_id child_ids s'))))"
| "child_loop depth cat famplex_id root_id [] s = Inr s"
| "child_loop depth cat famplex_id root_id (child_id # rest) s =
     (let grandchild_ids = children cat child_id;
          child_gene_members = dd_get (family_to_gene cat) child_id
      in if (grandchild_ids = None \<or> grandchild_ids = Some []) \<and> length child_gene_members = 1
         then (case get_hgnc_name cat (hd child_gene_members) of
                 None \<Rightarrow> Inl (TypeError, stdout s)
               | Some gene_name \<Rightarrow>
                   if is_pseudogene gene_name
                   then child_loop depth cat famplex_id root_id rest (print (skip_msg gene_name) s)
                   else child_loop depth cat famplex_id root_id rest
                          (emit (''HGNC'', gene_name, ''isa'', ''FPLX'', famplex_id, root_id)
                             (print (link_msg child_id gene_name famplex_id) s)))
         else (case families cat child_id of
                 None \<Rightarrow> Inl (KeyError child_id, stdout s)
               | Some child_info \<Rightarrow>
                   (case get_famplex_id child_info of
                      Inl e \<Rightarrow> Inl (e, stdout s)
                    | Inr child_famplex_id \<Rightarrow>
                        (case get_relations_from_root depth cat child_id
                                (emit (''FPLX'', child_famplex_id, ''isa'', ''FPLX'', famplex_id, root_id) s) of
                           Inl e \<Rightarrow> Inl e
                         | Inr s' \<Rightarrow> child_loop depth cat famplex_id root_id rest s'))))"

text \<open>A fresh call, as \<open>__main__\<close> makes it: \<open>relations=None\<close> starts an empty accumulator.\<close>

definition flatten :: "nat \<Rightarrow> catalog \<Rightarrow> string \<Rightarrow> string list \<Rightarrow> st result" where
  "flatten depth cat root_id out = get_relations_from_root depth cat root_id \<lparr>relations = [], stdout = out\<rparr>"

subsection \<open>What a traversal visits and emits\<close>

text \<open>A child is collapsed (line 109) when it has no children of its own and exactly one
  member gene; every other child is recursed into.\<close>

definition collapsed :: "catalog \<Rightarrow> string \<Rightarrow> bool" where
  "collapsed cat child_id =
     ((children cat child_id = None \<or> children cat child_id = Some []) \<and>
      length (dd_get (family_to_gene cat) child_id) = 1)"

text \<open>The families a traversal from \<open>root\<close> calls \<open>get_relations_from_root\<close> for: the root,
  and every child of such a family that is not collapsed.\<close>

inductive traversed :: "catalog \<Rightarrow> string \<Rightarrow> string \<Rightarrow> bool" for cat :: catalog and root :: string where
  traversed_root: "traversed cat root root"
| traversed_child: "traversed cat root f \<Longrightarrow> children cat f = Some cs \<Longrightarrow> c \<in> set cs \<Longrightarrow>
     \<not> collapsed cat c \<Longrightarrow> traversed cat root c"

text \<open>
  The shape of a relation emitted during a traversal from \<open>root\<close>: its last field is a
  traversed family \<open>f\<close> with a metadata record, its target is the FPLX id of \<open>f\<close>, and its
  source is either the resolved name, not a pseudogene name, of a member gene of \<open>f\<close> or of
  the single gene of a collapsed child of \<open>f\<close>, or the FPLX id of a child of \<open>f\<close> that is
  not collapsed.
\<close>

definition emitted_by :: "catalog \<Rightarrow> string \<Rightarrow> relation \<Rightarrow> bool" where
  "emitted_by cat root r \<longleftrightarrow>
     (\<exists>fam. traversed cat root (root_of r) \<and> families cat (root_of r) = Some fam \<and>
            get_famplex_id fam = Inr (tgt_id r)) \<and>
     rel_kind r = ''isa'' \<and> tgt_ns r = ''FPLX'' \<and>
     ((src_ns r = ''HGNC'' \<and> \<not> is_pseudogene (src_id r) \<and>
       (\<exists>g. get_hgnc_name cat g = Some (src_id r) \<and>
            (g \<in> set (dd_get (family_to_gene cat) (root_of r)) \<or>
             (\<exists>cs c. children cat (root_of r) = Some cs \<and> c \<in> set cs \<and> collapsed cat c \<and>
                     dd_get (family_to_gene cat) c = [g])))) \<or>
      (src_ns r = ''FPLX'' \<and>
       (\<exists>cs c cfam. children cat (root_of r) = Some cs \<and> c \<in> set cs \<and> \<not> collapsed cat c \<and>
                    families cat c = Some cfam \<and> get_famplex_id cfam = Inr (src_id r))))"

text \<open>\<open>extends P s s'\<close>: state \<open>s'\<close> is \<open>s\<close> with relations appended, all satisfying \<open>P\<close>, and
  lines printed.\<close>

definition extends :: "(relation \<Rightarrow> bool) \<Rightarrow> st \<Rightarrow> st \<Rightarrow> bool" where
  "extends P s s' \<longleftrightarrow>
     (\<exists>new out. relations s' = relations s @ new \<and> stdout s' = stdout s @ out \<and> list_all P new)"

subsection \<open>A small catalog\<close>

text \<open>
  Family 1 (\<open>R\<close>) has the genes g1 and g2 (named \<open>G1\<close> and \<open>G2P\<close>) and the children 2 and 3.
  Family 2 (\<open>C\<close>) has no children and the single gene g3; family 3 (\<open>D\<close>) has the genes g4
  and g5. Family 4 (\<open>E\<close>) has the child 7, whose genes are g6 and g7 and which has no
  metadata record. Family 5 has an empty abbreviation and the genes g8 (a pseudogene), g9
  (with no resolvable name) and g10.
\<close>

definition ex_family :: "string \<Rightarrow> string \<Rightarrow> family" where
  "ex_family a n = [''abbreviation'' \<mapsto> a, ''name'' \<mapsto> n]"

definition ex_catalog :: catalog where
  "ex_catalog =
     \<lparr>families = [''1'' \<mapsto> ex_family ''R'' ''Root'', ''2'' \<mapsto> ex_family ''C'' ''Child'',
                  ''3'' \<mapsto> ex_family ''D'' ''Other child'', ''4'' \<mapsto> ex_family ''E'' ''Broken'',
                  ''5'' \<mapsto> ex_family [] ''Foo Bar, Baz''],
      children = [''1'' \<mapsto> [''2'', ''3''], ''4'' \<mapsto> [''7'']],
      gene_to_family = [''g1'' \<mapsto> [''1''], ''g2'' \<mapsto> [''1''], ''g3'' \<mapsto> [''2''],
                        ''g4'' \<mapsto> [''3''], ''g5'' \<mapsto> [''3''], ''g6'' \<mapsto> [''7''],
                        ''g7'' \<mapsto> [''7''], ''g8'' \<mapsto> [''5''], ''g9'' \<mapsto> [''5''],
                        ''g10'' \<mapsto> [''5'']],
      family_to_gene = [''1'' \<mapsto> [''g1'', ''g2''], ''2'' \<mapsto> [''g3''], ''3'' \<mapsto> [''g4'', ''g5''],
                        ''7'' \<mapsto> [''g6'', ''g7''], ''5'' \<mapsto> [''g8'', ''g9'', ''g10'']],
      get_hgnc_name = [''g1'' \<mapsto> ''G1'', ''g2'' \<mapsto> ''G2P'', ''g3'' \<mapsto> ''G3'', ''g4'' \<mapsto> ''G4'',
                       ''g5'' \<mapsto> ''G5'', ''g6'' \<mapsto> ''G6'', ''g7'' \<mapsto> ''G7'', ''g8'' \<mapsto> ''G8P'',
                       ''g10'' \<mapsto> ''G10'']\<rparr>"

text \<open>The lines the gene loop prints for a list of genes: one for each resolved name that
  is a pseudogene name.\<close>

definition skipped_lines :: "catalog \<Rightarrow> string list \<Rightarrow> string list" where
  "skipped_lines cat genes =
     concat (map (\<lambda>g. case get_hgnc_name cat g of
                          None \<Rightarrow> []
                        | Some n \<Rightarrow> if is_pseudogene n then [skip_msg n] else []) genes)"

section \<open>What the pattern matcher decides\<close>

lemma nullable_lang: "nullable r \<longleftrightarrow> [] \<in> lang r"
  by (induction r) (auto intro: star.star_nil)

lemma star_cons_split:
  assumes "x \<in> star A" and "x = c # s"
  shows "\<exists>u v. s = u @ v \<and> c # u \<in> A \<and> v \<in> star A"
  using assms
proof (induction arbitrary: s rule: star.induct)
  case star_nil
  then show ?case by simp
next
  case (star_app u v)
  show ?case
  proof (cases u)
    case Nil
    with star_app show ?thesis by simp
  next
    case (Cons a u')
    with star_app.prems have "a = c" and "s = u' @ v" by simp_all
    with Cons star_app.hyps show ?thesis by blast
  qed
qed

lemma star_cons_iff:
  "c # s \<in> star A \<longleftrightarrow> (\<exists>u v. s = u @ v \<and> c # u \<in> A \<and> v \<in> star A)"
proof
  assume "c # s \<in> star A"
  then show "\<exists>u v. s = u @ v \<and> c # u \<in> A \<and> v \<in> star A"
    using star_cons_split [of "c # s" A c s] by simp
next
  assume "\<exists>u v. s = u @ v \<and> c # u \<in> A \<and> v \<in> star A"
  then obtain u v where s: "s = u @ v" and u: "c # u \<in> A" and v: "v \<in> star A" by blast
  from u v have "(c # u) @ v \<in> star A" by (rule star.star_app)
  with s show "c # s \<in> star A" by simp
qed

lemma deriv_lang: "s \<in> lang (deriv c r) \<longleftrightarrow> c # s \<in> lang r"
proof (induction r arbitrary: s)
  case (Seq r1 r2)
  then show ?case
    by (auto simp: nullable_lang Cons_eq_append_conv)
next
  case (Star r)
  then show ?case
    by (simp add: star_cons_iff)
qed auto

lemma fullmatch_lang: "fullmatch r s \<longleftrightarrow> s \<in> lang r"
  by (induction s arbitrary: r) (simp_all add: nullable_lang deriv_lang)

lemma star_atom_sub: "s \<in> star {[c] | c. P c} \<Longrightarrow> \<forall>c \<in> set s. P c"
  by (induction rule: star.induct) auto

lemma star_atom_sup: "\<forall>c \<in> set s. P c \<Longrightarrow> s \<in> star {[c] | c. P c}"
proof (induction s)
  case Nil
  show ?case by (rule star.star_nil)
next
  case (Cons a s)
  then have "[a] \<in> {[c] | c. P c}" and "s \<in> star {[c] | c. P c}" by auto
  then have "[a] @ s \<in> star {[c] | c. P c}" by (rule star.star_app)
  then show ?case by simp
qed

lemma lang_star_atom: "s \<in> lang (Star (Atom a)) \<longleftrightarrow> (\<forall>c \<in> set s. cc_match a c)"
proof -
  have "lang (Star (Atom a)) = star {[c] | c. cc_match a c}" by simp
  then show ?thesis
    using star_atom_sub [of s "cc_match a"] star_atom_sup [of s "cc_match a"] by blast
qed

lemma lang_Seq: "s \<in> lang (Seq r1 r2) \<longleftrightarrow> (\<exists>u v. s = u @ v \<and> u \<in> lang r1 \<and> v \<in> lang r2)"
  by auto

lemma lang_Atom: "s \<in> lang (Atom a) \<longleftrightarrow> (\<exists>c. s = [c] \<and> cc_match a c)"
  by simp

lemma lang_plus_atom:
  "s \<in> lang (Plus (Atom a)) \<longleftrightarrow> s \<noteq> [] \<and> (\<forall>c \<in> set s. cc_match a c)"
proof -
  have "s \<in> lang (Plus (Atom a)) \<longleftrightarrow>
        (\<exists>u v. s = u @ v \<and> u \<in> lang (Atom a) \<and> v \<in> lang (Star (Atom a)))"
    by (rule lang_Seq)
  also have "\<dots> \<longleftrightarrow> (\<exists>c v. s = c # v \<and> cc_match a c \<and> (\<forall>x \<in> set v. cc_match a x))"
  proof
    assume "\<exists>u v. s = u @ v \<and> u \<in> lang (Atom a) \<and> v \<in> lang (Star (Atom a))"
    then obtain u v where s: "s = u @ v" and u: "u \<in> lang (Atom a)"
      and v: "v \<in> lang (Star (Atom a))" by blast
    from u obtain c where c: "u = [c]" "cc_match a c" unfolding lang_Atom by blast
    from s c have "s = c # v" by simp
    with c v show "\<exists>c v. s = c # v \<and> cc_match a c \<and> (\<forall>x \<in> set v. cc_match a x)"
      unfolding lang_star_atom by blast
  next
    assume "\<exists>c v. s = c # v \<and> cc_match a c \<and> (\<forall>x \<in> set v. cc_match a x)"
    then obtain c v where s: "s = c # v" and c: "cc_match a c"
      and v: "\<forall>x \<in> set v. cc_match a x" by blast
    from c have "[c] \<in> lang (Atom a)" unfolding lang_Atom by blast
    moreover from v have "v \<in> lang (Star (Atom a))" unfolding lang_star_atom .
    moreover from s have "s = [c] @ v" by simp
    ultimately show "\<exists>u v. s = u @ v \<and> u \<in> lang (Atom a) \<and> v \<in> lang (Star (Atom a))"
      by blast
  qed
  also have "\<dots> \<longleftrightarrow> s \<noteq> [] \<and> (\<forall>c \<in> set s. cc_match a c)"
    by (cases s) auto
  finally show ?thesis .
qed

lemma lang_Lit: "s \<in> lang (Atom (Lit a)) \<longleftrightarrow> s = [a]"
  by auto

lemma lang_pseudogene_pattern:
  "s \<in> lang pseudogene_pattern \<longleftrightarrow>
     (\<exists>pre digs. s = pre @ digs @ ''P'' \<and> newline \<notin> set pre \<and> digs \<noteq> [] \<and>
                 (\<forall>c \<in> set digs. cc_match Digit c))"
proof -
  have "s \<in> lang pseudogene_pattern \<longleftrightarrow>
        (\<exists>u v. s = u @ v \<and> u \<in> lang (Star (Atom NotNewline)) \<and>
           (\<exists>w x. v = w @ x \<and> w \<in> lang (Plus (Atom Digit)) \<and> x \<in> lang (Atom (Lit CHR ''P''))))"
    unfolding pseudogene_pattern_def by (simp only: lang_Seq)
  also have "\<dots> \<longleftrightarrow> (\<exists>u w. s = u @ w @ ''P'' \<and> (\<forall>c \<in> set u. c \<noteq> newline) \<and> w \<noteq> [] \<and>
                 (\<forall>c \<in> set w. cc_match Digit c))"
    by (simp only: lang_star_atom lang_plus_atom lang_Lit cc_match.simps) blast
  also have "\<dots> \<longleftrightarrow> (\<exists>pre digs. s = pre @ digs @ ''P'' \<and> newline \<notin> set pre \<and> digs \<noteq> [] \<and>
                 (\<forall>c \<in> set digs. cc_match Digit c))"
    by blast
  finally show ?thesis .
qed

section \<open>Identifier normalisation: properties\<close>

lemmas pg_eval = is_pseudogene_def match_to_dollar_def pseudogene_pattern_def newline_def

text \<open>
  Claim C4, as stated, equates \<open>is_pseudogene\<close> with the pattern "one or more arbitrary
  characters, one or more digits, \<open>P\<close>". The source pattern starts with \<open>.*\<close>, which also
  matches nothing: on \<open>1P\<close> the code answers true and the stated pattern false.
\<close>

theorem is_pseudogene_spec_counterexample:
  "is_pseudogene ''1P'' \<noteq> spec_is_pseudogene ''1P''"
  by (simp add: is_pseudogene_def match_to_dollar_def pseudogene_pattern_def newline_def
        spec_is_pseudogene_def spec_pseudogene_pattern_def)

text \<open>
  Claim C4, amended: \<open>is_pseudogene s\<close> holds exactly when \<open>s\<close>, or \<open>s\<close> without one final
  newline, is zero or more characters other than newline, then one or more decimal digits,
  then \<open>P\<close>. The three examples of the claim hold: \<open>ABC1P\<close> is a pseudogene name, \<open>ABC1\<close>
  and \<open>P\<close> are not.
\<close>

theorem is_pseudogene_iff:
  "(is_pseudogene s \<longleftrightarrow>
      (\<exists>pre digs. (s = pre @ digs @ ''P'' \<or> s = pre @ digs @ ''P'' @ [newline]) \<and>
          newline \<notin> set pre \<and> digs \<noteq> [] \<and> list_all (cc_match Digit) digs))
   \<and> is_pseudogene ''ABC1P'' \<and> \<not> is_pseudogene ''ABC1'' \<and> \<not> is_pseudogene ''P''"
proof -
  let ?ok = "\<lambda>pre digs. newline \<notin> set pre \<and> digs \<noteq> [] \<and> list_all (cc_match Digit) digs"
  have full: "fullmatch pseudogene_pattern t \<longleftrightarrow> (\<exists>pre digs. t = pre @ digs @ ''P'' \<and> ?ok pre digs)" for t
    by (simp add: fullmatch_lang lang_pseudogene_pattern list_all_iff del: lang.simps)
  have bl: "(t \<noteq> [] \<and> last t = newline \<and> butlast t = u) \<longleftrightarrow> t = u @ [newline]" for t u
    by (cases t rule: rev_cases) auto
  have "is_pseudogene s \<longleftrightarrow>
          (\<exists>pre digs. s = pre @ digs @ ''P'' \<and> ?ok pre digs) \<or>
          (s \<noteq> [] \<and> last s = newline \<and> (\<exists>pre digs. butlast s = pre @ digs @ ''P'' \<and> ?ok pre digs))"
    unfolding is_pseudogene_def match_to_dollar_def full ..
  also have "\<dots> \<longleftrightarrow> (\<exists>pre digs. s = pre @ digs @ ''P'' \<and> ?ok pre digs) \<or>
          (\<exists>pre digs. (s \<noteq> [] \<and> last s = newline \<and> butlast s = pre @ digs @ ''P'') \<and> ?ok pre digs)"
    by blast
  also have "\<dots> \<longleftrightarrow> (\<exists>pre digs. s = pre @ digs @ ''P'' \<and> ?ok pre digs) \<or>
          (\<exists>pre digs. s = (pre @ digs @ ''P'') @ [newline] \<and> ?ok pre digs)"
    unfolding bl ..
  also have "\<dots> \<longleftrightarrow> (\<exists>pre digs. (s = pre @ digs @ ''P'' \<or> s = pre @ digs @ ''P'' @ [newline]) \<and> ?ok pre digs)"
    by (simp only: append_assoc) blast
  finally have main: "is_pseudogene s \<longleftrightarrow>
      (\<exists>pre digs. (s = pre @ digs @ ''P'' \<or> s = pre @ digs @ ''P'' @ [newline]) \<and> ?ok pre digs)" .
  have e1: "is_pseudogene ''ABC1P''" by (simp add: pg_eval)
  have e2: "\<not> is_pseudogene ''ABC1''" by (simp add: pg_eval)
  have e3: "\<not> is_pseudogene ''P''" by (simp add: pg_eval)
  from main e1 e2 e3 show ?thesis by blast
qed

text \<open>The characterisation of C4 used at concrete names: a symbol ending in a letter and
  \<open>P\<close> is kept, one ending in digits and \<open>P\<close> is a pseudogene, also with a final newline and
  with nothing before the digits.\<close>

theorem is_pseudogene_iff_witness:
  "is_pseudogene ''RPL23AP'' = False \<and> is_pseudogene ''RPL23P'' \<and> is_pseudogene (''7P'' @ [newline])"
proof -
  have a: "\<not> is_pseudogene ''RPL23AP''" by (simp add: pg_eval)
  have "\<exists>pre digs. (''RPL23P'' = pre @ digs @ ''P'' \<or> ''RPL23P'' = pre @ digs @ ''P'' @ [newline]) \<and>
          newline \<notin> set pre \<and> digs \<noteq> [] \<and> list_all (cc_match Digit) digs"
    by (rule exI [of _ "''RPL''"], rule exI [of _ "''23''"]) (simp add: newline_def)
  then have b: "is_pseudogene ''RPL23P''" using is_pseudogene_iff [of "''RPL23P''"] by blast
  have "\<exists>pre digs. (''7P'' @ [newline] = pre @ digs @ ''P'' \<or> ''7P'' @ [newline] = pre @ digs @ ''P'' @ [newline]) \<and>
          newline \<notin> set pre \<and> digs \<noteq> [] \<and> list_all (cc_match Digit) digs"
    by (rule exI [of _ "[]"], rule exI [of _ "''7''"]) simp
  then have c: "is_pseudogene (''7P'' @ [newline])" using is_pseudogene_iff [of "''7P'' @ [newline]"] by blast
  from a b c show ?thesis by simp
qed

text \<open>
  Claim C5, as stated, expects \<open>Foo_BarBaz\<close> for the name \<open>Foo Bar, Baz\<close> with an empty
  abbreviation. The space after the comma is replaced by an underscore before the comma is
  removed, so the code returns \<open>Foo_Bar_Baz\<close>.
\<close>

theorem get_famplex_id_name_counterexample:
  "get_famplex_id [''abbreviation'' \<mapsto> '''', ''name'' \<mapsto> ''Foo Bar, Baz''] \<noteq> Inr ''Foo_BarBaz''"
  by (simp add: get_famplex_id_def replaces_def replace_def strip_def is_space_def)

text \<open>
  Claim C5, amended: for a family with an empty abbreviation, \<open>get_famplex_id\<close> returns the
  trimmed name with space replaced by \<open>_\<close>, then hyphen replaced by \<open>_\<close>, then comma removed;
  for the name \<open>Foo Bar, Baz\<close> that is \<open>Foo_Bar_Baz\<close>.
\<close>

theorem get_famplex_id_name:
  assumes "family ''abbreviation'' = Some []" and "family ''name'' = Some n"
  shows "get_famplex_id family = Inr (replace (replace (replace (strip n) '' '' ''_'') ''-'' ''_'') '','' [])
       \<and> (n = ''Foo Bar, Baz'' \<longrightarrow> get_famplex_id family = Inr ''Foo_Bar_Baz'')"
  using assms
  by (simp add: get_famplex_id_def replaces_def) (simp add: replace_def strip_def is_space_def)

text \<open>The amended C5 at the family of the claim.\<close>

theorem get_famplex_id_name_witness:
  "get_famplex_id [''abbreviation'' \<mapsto> '''', ''name'' \<mapsto> ''Foo Bar, Baz''] = Inr ''Foo_Bar_Baz''"
  using get_famplex_id_name [of "[''abbreviation'' \<mapsto> '''', ''name'' \<mapsto> ''Foo Bar, Baz'']" "''Foo Bar, Baz''"]
  by (simp add: replace_def strip_def is_space_def)

section \<open>The flattener: what a successful traversal has emitted\<close>

lemma extends_refl: "extends P s s"
  by (simp add: extends_def)

lemma extends_trans: "extends P s t \<Longrightarrow> extends P t u \<Longrightarrow> extends P s u"
  unfolding extends_def by (elim exE conjE) simp

lemma extends_emit: "P r \<Longrightarrow> extends P s (emit r s)"
  by (simp add: extends_def emit_def)

lemma extends_print: "extends P s (print l s)"
  by (simp add: extends_def print_def)

lemma extends_mono: "extends P s t \<Longrightarrow> (\<And>r. P r \<Longrightarrow> Q r) \<Longrightarrow> extends Q s t"
  unfolding extends_def list_all_iff by blast

lemma extends_emit_then: "P r \<Longrightarrow> extends P (emit r s) t \<Longrightarrow> extends P s t"
  using extends_trans [OF extends_emit] by blast

lemma extends_print_then: "extends P (print l s) t \<Longrightarrow> extends P s t"
  using extends_trans [OF extends_print] by blast

lemma gene_loop_extends:
  assumes "gene_loop cat famplex_id root_id genes s = Inr s'"
  shows "extends (\<lambda>r. \<exists>g n. g \<in> set genes \<and> get_hgnc_name cat g = Some n \<and> \<not> is_pseudogene n \<and>
                     r = (''HGNC'', n, ''isa'', ''FPLX'', famplex_id, root_id)) s s'"
  using assms
proof (induction genes arbitrary: s)
  case Nil
  then show ?case by (simp add: extends_refl)
next
  case (Cons g genes)
  let ?P = "\<lambda>gs r. \<exists>g n. g \<in> set gs \<and> get_hgnc_name cat g = Some n \<and> \<not> is_pseudogene n \<and>
                     r = (''HGNC'', n, ''isa'', ''FPLX'', famplex_id, root_id)"
  from Cons.prems obtain n where n: "get_hgnc_name cat g = Some n"
    by (cases "get_hgnc_name cat g") auto
  have mono: "extends (?P genes) t s' \<Longrightarrow> extends (?P (g # genes)) t s'" for t
    by (erule extends_mono) auto
  show ?case
  proof (cases "is_pseudogene n")
    case True
    with Cons.prems n have "gene_loop cat famplex_id root_id genes (print (skip_msg n) s) = Inr s'"
      by simp
    then have "extends (?P genes) (print (skip_msg n) s) s'" by (rule Cons.IH)
    then have "extends (?P (g # genes)) (print (skip_msg n) s) s'" by (rule mono)
    then show ?thesis by (rule extends_print_then)
  next
    case False
    let ?r = "(''HGNC'', n, ''isa'', ''FPLX'', famplex_id, root_id)"
    from False Cons.prems n have "gene_loop cat famplex_id root_id genes (emit ?r s) = Inr s'"
      by simp
    then have "extends (?P genes) (emit ?r s) s'" by (rule Cons.IH)
    then have "extends (?P (g # genes)) (emit ?r s) s'" by (rule mono)
    moreover have "?P (g # genes) ?r" using n False by auto
    ultimately show ?thesis by (rule extends_emit_then [rotated])
  qed
qed

lemma traversed_lift:
  assumes "traversed cat c x" and "children cat f = Some cs" and "c \<in> set cs" and "\<not> collapsed cat c"
  shows "traversed cat f x"
  using assms
proof (induction rule: traversed.induct)
  case traversed_root
  then show ?case by (blast intro: traversed.intros)
next
  case (traversed_child g cs' c')
  then show ?case by (blast intro: traversed.intros)
qed

lemma emitted_by_lift:
  assumes "emitted_by cat c r" and "children cat f = Some cs" and "c \<in> set cs" and "\<not> collapsed cat c"
  shows "emitted_by cat f r"
  using assms traversed_lift [of cat c "root_of r" f cs]
  unfolding emitted_by_def by blast


lemma child_loop_Cons:
  "child_loop d cat fid f (c # rest) s =
     (if collapsed cat c
      then (case get_hgnc_name cat (hd (dd_get (family_to_gene cat) c)) of
              None \<Rightarrow> Inl (TypeError, stdout s)
            | Some n \<Rightarrow>
                if is_pseudogene n then child_loop d cat fid f rest (print (skip_msg n) s)
                else child_loop d cat fid f rest
                       (emit (''HGNC'', n, ''isa'', ''FPLX'', fid, f) (print (link_msg c n fid) s)))
      else (case families cat c of
              None \<Rightarrow> Inl (KeyError c, stdout s)
            | Some child_info \<Rightarrow>
                (case get_famplex_id child_info of
                   Inl e \<Rightarrow> Inl (e, stdout s)
                 | Inr cid \<Rightarrow>
                     (case get_relations_from_root d cat c
                             (emit (''FPLX'', cid, ''isa'', ''FPLX'', fid, f) s) of
                        Inl e \<Rightarrow> Inl e
                      | Inr s' \<Rightarrow> child_loop d cat fid f rest s'))))"
  by (simp add: collapsed_def Let_def)

declare child_loop.simps(2) [simp del]

lemma child_loop_collapsed:
  "collapsed cat c \<Longrightarrow>
   child_loop d cat fid f (c # rest) s =
     (case get_hgnc_name cat (hd (dd_get (family_to_gene cat) c)) of
        None \<Rightarrow> Inl (TypeError, stdout s)
      | Some n \<Rightarrow>
          if is_pseudogene n then child_loop d cat fid f rest (print (skip_msg n) s)
          else child_loop d cat fid f rest
                 (emit (''HGNC'', n, ''isa'', ''FPLX'', fid, f) (print (link_msg c n fid) s)))"
  by (simp only: child_loop_Cons if_True)

lemma child_loop_recurse:
  "\<not> collapsed cat c \<Longrightarrow>
   child_loop d cat fid f (c # rest) s =
     (case families cat c of
        None \<Rightarrow> Inl (KeyError c, stdout s)
      | Some child_info \<Rightarrow>
          (case get_famplex_id child_info of
             Inl e \<Rightarrow> Inl (e, stdout s)
           | Inr cid \<Rightarrow>
               (case get_relations_from_root d cat c
                       (emit (''FPLX'', cid, ''isa'', ''FPLX'', fid, f) s) of
                  Inl e \<Rightarrow> Inl e
                | Inr s' \<Rightarrow> child_loop d cat fid f rest s')))"
  by (simp only: child_loop_Cons if_False)

lemma collapsed_single: "collapsed cat c \<Longrightarrow> dd_get (family_to_gene cat) c = [hd (dd_get (family_to_gene cat) c)]"
  by (cases "dd_get (family_to_gene cat) c") (auto simp: collapsed_def)

lemma child_loop_extends:
  assumes IH: "\<And>c s s'. get_relations_from_root d cat c s = Inr s' \<Longrightarrow> extends (emitted_by cat c) s s'"
    and fam: "families cat f = Some fam" "get_famplex_id fam = Inr fid" "children cat f = Some cs0"
    and run: "child_loop d cat fid f cs s = Inr s'" and sub: "set cs \<subseteq> set cs0"
  shows "extends (emitted_by cat f) s s'"
  using run sub
proof (induction cs arbitrary: s)
  case Nil
  then show ?case by (simp add: extends_refl)
next
  case (Cons c rest)
  from Cons.prems have c: "c \<in> set cs0" and rest: "set rest \<subseteq> set cs0" by auto
  show ?case
  proof (cases "collapsed cat c")
    case True
    let ?g = "hd (dd_get (family_to_gene cat) c)"
    from Cons.prems(1) True obtain n where n: "get_hgnc_name cat ?g = Some n"
      by (cases "get_hgnc_name cat ?g") (auto simp: child_loop_collapsed)
    show ?thesis
    proof (cases "is_pseudogene n")
      case pg: True
      with Cons.prems(1) True n have "child_loop d cat fid f rest (print (skip_msg n) s) = Inr s'"
        by (simp add: child_loop_collapsed)
      then have "extends (emitted_by cat f) (print (skip_msg n) s) s'" using rest by (rule Cons.IH)
      then show ?thesis by (rule extends_print_then)
    next
      case npg: False
      let ?r = "(''HGNC'', n, ''isa'', ''FPLX'', fid, f)"
      from npg Cons.prems(1) True n
      have "child_loop d cat fid f rest (emit ?r (print (link_msg c n fid) s)) = Inr s'"
        by (simp add: child_loop_collapsed)
      then have "extends (emitted_by cat f) (emit ?r (print (link_msg c n fid) s)) s'"
        using rest by (rule Cons.IH)
      moreover have "emitted_by cat f ?r"
        unfolding emitted_by_def
        using fam c True n npg collapsed_single [OF True] traversed_root [of cat f]
        by auto
      ultimately have "extends (emitted_by cat f) (print (link_msg c n fid) s) s'"
        by (rule extends_emit_then [rotated])
      then show ?thesis by (rule extends_print_then)
    qed
  next
    case False
    from Cons.prems(1) False obtain cfam where cfam: "families cat c = Some cfam"
      by (cases "families cat c") (auto simp: child_loop_recurse)
    from Cons.prems(1) False cfam obtain cid where cid: "get_famplex_id cfam = Inr cid"
      by (cases "get_famplex_id cfam") (auto simp: child_loop_recurse)
    let ?r = "(''FPLX'', cid, ''isa'', ''FPLX'', fid, f)"
    from Cons.prems(1) False cfam cid obtain s1
      where s1: "get_relations_from_root d cat c (emit ?r s) = Inr s1"
        and s2: "child_loop d cat fid f rest s1 = Inr s'"
      by (cases "get_relations_from_root d cat c (emit ?r s)") (auto simp: child_loop_recurse)
    from s1 have "extends (emitted_by cat c) (emit ?r s) s1" by (rule IH)
    then have "extends (emitted_by cat f) (emit ?r s) s1"
      by (rule extends_mono) (rule emitted_by_lift [OF _ fam(3) c False])
    moreover from s2 rest have "extends (emitted_by cat f) s1 s'" by (rule Cons.IH)
    ultimately have "extends (emitted_by cat f) (emit ?r s) s'" by (rule extends_trans)
    moreover have "emitted_by cat f ?r"
      unfolding emitted_by_def
      using fam c False cfam cid traversed_root [of cat f]
      by auto
    ultimately show ?thesis by (rule extends_emit_then [rotated])
  qed
qed

lemma get_relations_from_root_extends:
  "get_relations_from_root d cat f s = Inr s' \<Longrightarrow> extends (emitted_by cat f) s s'"
proof (induction d arbitrary: f s s')
  case 0
  then show ?case by simp
next
  case (Suc d)
  from Suc.prems obtain fam where fam: "families cat f = Some fam"
    by (cases "families cat f") auto
  from Suc.prems fam obtain fid where fid: "get_famplex_id fam = Inr fid"
    by (cases "get_famplex_id fam") auto
  from Suc.prems fam fid obtain s1
    where s1: "gene_loop cat fid f (dd_get (family_to_gene cat) f) s = Inr s1"
    by (cases "gene_loop cat fid f (dd_get (family_to_gene cat) f) s") auto
  have "extends (emitted_by cat f) s s1"
    by (rule extends_mono [OF gene_loop_extends [OF s1]])
       (use fam fid traversed_root [of cat f] in \<open>auto simp: emitted_by_def\<close>)
  moreover have "extends (emitted_by cat f) s1 s'"
  proof (cases "children cat f")
    case None
    with Suc.prems fam fid s1 show ?thesis by (simp add: extends_refl)
  next
    case (Some cs)
    with Suc.prems fam fid s1 have "child_loop d cat fid f cs s1 = Inr s'" by simp
    then show ?thesis
      using child_loop_extends [OF Suc.IH fam fid Some] by blast
  qed
  ultimately show ?case by (rule extends_trans)
qed

lemma extends_sets:
  "extends P s s' \<Longrightarrow> set (relations s) \<subseteq> set (relations s') \<and> set (stdout s) \<subseteq> set (stdout s')"
  unfolding extends_def by auto

lemma extends_any: "extends P s s' \<Longrightarrow> extends (\<lambda>_. True) s s'"
  by (erule extends_mono) simp

lemma child_loop_Cons_success:
  assumes "child_loop d cat fid f (h # rest) s = Inr s'"
  shows "\<exists>t. extends (\<lambda>_. True) s t \<and> child_loop d cat fid f rest t = Inr s'"
proof (cases "collapsed cat h")
  case True
  let ?g = "hd (dd_get (family_to_gene cat) h)"
  from assms True obtain n where n: "get_hgnc_name cat ?g = Some n"
    by (cases "get_hgnc_name cat ?g") (auto simp: child_loop_collapsed)
  show ?thesis
  proof (cases "is_pseudogene n")
    case pg: True
    with assms True n have "child_loop d cat fid f rest (print (skip_msg n) s) = Inr s'"
      by (simp add: child_loop_collapsed)
    with extends_print show ?thesis by blast
  next
    case npg: False
    let ?t = "emit (''HGNC'', n, ''isa'', ''FPLX'', fid, f) (print (link_msg h n fid) s)"
    from npg assms True n have "child_loop d cat fid f rest ?t = Inr s'"
      by (simp add: child_loop_collapsed)
    moreover have "extends (\<lambda>_. True) s ?t"
      by (rule extends_trans [OF extends_print extends_emit]) simp
    ultimately show ?thesis by blast
  qed
next
  case False
  from assms False obtain cfam where cfam: "families cat h = Some cfam"
    by (cases "families cat h") (auto simp: child_loop_recurse)
  from assms False cfam obtain cid where cid: "get_famplex_id cfam = Inr cid"
    by (cases "get_famplex_id cfam") (auto simp: child_loop_recurse)
  let ?r = "(''FPLX'', cid, ''isa'', ''FPLX'', fid, f)"
  from assms False cfam cid obtain s1
    where s1: "get_relations_from_root d cat h (emit ?r s) = Inr s1"
      and s2: "child_loop d cat fid f rest s1 = Inr s'"
    by (cases "get_relations_from_root d cat h (emit ?r s)") (auto simp: child_loop_recurse)
  have "extends (\<lambda>_. True) s (emit ?r s)" by (rule extends_emit) simp
  moreover have "extends (\<lambda>_. True) (emit ?r s) s1"
    by (rule extends_any [OF get_relations_from_root_extends [OF s1]])
  ultimately have "extends (\<lambda>_. True) s s1" by (rule extends_trans)
  with s2 show ?thesis by blast
qed

lemma child_loop_grows:
  "child_loop d cat fid f cs s = Inr s' \<Longrightarrow> extends (\<lambda>_. True) s s'"
proof (induction cs arbitrary: s)
  case Nil
  then show ?case by (simp add: extends_refl)
next
  case (Cons h rest)
  from child_loop_Cons_success [OF Cons.prems] obtain t
    where "extends (\<lambda>_. True) s t" and "child_loop d cat fid f rest t = Inr s'" by blast
  then show ?case using Cons.IH extends_trans by blast
qed

lemma child_loop_calls_member:
  assumes "child_loop d cat fid f cs s = Inr s'" and "c \<in> set cs" and "\<not> collapsed cat c"
  shows "\<exists>s1 s2. get_relations_from_root d cat c s1 = Inr s2"
  using assms(1,2)
proof (induction cs arbitrary: s)
  case Nil
  then show ?case by simp
next
  case (Cons h rest)
  show ?case
  proof (cases "h = c")
    case True
    with Cons.prems(1) assms(3) obtain cfam where cfam: "families cat c = Some cfam"
      by (cases "families cat c") (auto simp: child_loop_recurse)
    from True Cons.prems(1) assms(3) cfam obtain cid where cid: "get_famplex_id cfam = Inr cid"
      by (cases "get_famplex_id cfam") (auto simp: child_loop_recurse)
    let ?r = "(''FPLX'', cid, ''isa'', ''FPLX'', fid, f)"
    from True Cons.prems(1) assms(3) cfam cid show ?thesis
      by (cases "get_relations_from_root d cat c (emit ?r s)") (auto simp: child_loop_recurse)
  next
    case False
    with Cons.prems(2) have "c \<in> set rest" by simp
    moreover from child_loop_Cons_success [OF Cons.prems(1)] obtain t
      where "child_loop d cat fid f rest t = Inr s'" by blast
    ultimately show ?thesis using Cons.IH by blast
  qed
qed

lemma success_has_metadata:
  "get_relations_from_root d cat f s = Inr s' \<Longrightarrow> f \<in> dom (families cat)"
  by (cases d; cases "families cat f") auto

lemma success_calls_child:
  assumes "get_relations_from_root d cat f s = Inr s'" and "children cat f = Some cs"
    and "c \<in> set cs" and "\<not> collapsed cat c"
  shows "\<exists>d' s1 s2. get_relations_from_root d' cat c s1 = Inr s2"
proof (cases d)
  case 0
  with assms(1) show ?thesis by simp
next
  case (Suc d')
  from assms(1) Suc obtain fam where fam: "families cat f = Some fam"
    by (cases "families cat f") auto
  from assms(1) Suc fam obtain fid where fid: "get_famplex_id fam = Inr fid"
    by (cases "get_famplex_id fam") auto
  from assms(1) Suc fam fid obtain s1
    where "gene_loop cat fid f (dd_get (family_to_gene cat) f) s = Inr s1"
    by (cases "gene_loop cat fid f (dd_get (family_to_gene cat) f) s") auto
  with assms(1,2) Suc fam fid have "child_loop d' cat fid f cs s1 = Inr s'" by simp
  from child_loop_calls_member [OF this assms(3,4)] show ?thesis by blast
qed

lemma traversed_called:
  assumes "traversed cat f x" and "get_relations_from_root d cat f s = Inr s'"
  shows "\<exists>d' s1 s2. get_relations_from_root d' cat x s1 = Inr s2"
  using assms
proof (induction rule: traversed.induct)
  case traversed_root
  then show ?case by blast
next
  case (traversed_child g cs c)
  then obtain d' s1 s2 where "get_relations_from_root d' cat g s1 = Inr s2" by blast
  from success_calls_child [OF this traversed_child.hyps(2,3,4)] show ?case .
qed

lemmas ex_eval = ex_catalog_def ex_family_def flatten_def get_famplex_id_def replaces_def replace_def
  strip_def is_space_def dd_get_def is_pseudogene_def match_to_dollar_def pseudogene_pattern_def
  newline_def emit_def print_def skip_msg_def link_msg_def collapsed_def child_loop_Cons

lemma gene_loop_unresolved:
  assumes "\<forall>g \<in> set pre. get_hgnc_name cat g \<noteq> None" and "get_hgnc_name cat gene = None"
  shows "gene_loop cat fid rid (pre @ gene # post) s = Inl (TypeError, stdout s @ skipped_lines cat pre)"
  using assms(1)
proof (induction pre arbitrary: s)
  case Nil
  with assms(2) show ?case by (simp add: skipped_lines_def)
next
  case (Cons g pre)
  then obtain n where n: "get_hgnc_name cat g = Some n" by auto
  from Cons have IH: "gene_loop cat fid rid (pre @ gene # post) t =
      Inl (TypeError, stdout t @ skipped_lines cat pre)" for t by simp
  show ?case
    by (cases "is_pseudogene n") (simp_all add: n IH skipped_lines_def print_def emit_def)
qed

lemma traversed_not_collapsed: "traversed cat f x \<Longrightarrow> x = f \<or> \<not> collapsed cat x"
  by (erule traversed.cases) auto

lemma flatten_emitted:
  assumes "flatten depth cat f out = Inr s'"
  shows "list_all (emitted_by cat f) (relations s')"
  using get_relations_from_root_extends [OF assms [unfolded flatten_def]]
  by (auto simp: extends_def)

lemma child_loop_collapsed_member:
  assumes "child_loop d cat fid f cs s = Inr s'" and "c \<in> set cs" and "collapsed cat c"
    and "get_hgnc_name cat (hd (dd_get (family_to_gene cat) c)) = Some n"
  shows "(\<not> is_pseudogene n \<longrightarrow> (''HGNC'', n, ''isa'', ''FPLX'', fid, f) \<in> set (relations s') \<and>
                                 link_msg c n fid \<in> set (stdout s')) \<and>
         (is_pseudogene n \<longrightarrow> skip_msg n \<in> set (stdout s'))"
  using assms(1,2)
proof (induction cs arbitrary: s)
  case Nil
  then show ?case by simp
next
  case (Cons h rest)
  show ?case
  proof (cases "h = c")
    case True
    show ?thesis
    proof (cases "is_pseudogene n")
      case pg: True
      with Cons.prems(1) True assms(3,4)
      have "child_loop d cat fid f rest (print (skip_msg n) s) = Inr s'"
        by (simp add: child_loop_collapsed)
      from extends_sets [OF child_loop_grows [OF this]] pg show ?thesis
        by (auto simp: print_def)
    next
      case npg: False
      let ?t = "emit (''HGNC'', n, ''isa'', ''FPLX'', fid, f) (print (link_msg c n fid) s)"
      from npg Cons.prems(1) True assms(3,4) have "child_loop d cat fid f rest ?t = Inr s'"
        by (simp add: child_loop_collapsed)
      from extends_sets [OF child_loop_grows [OF this]] npg show ?thesis
        by (auto simp: print_def emit_def)
    qed
  next
    case False
    with Cons.prems(2) have "c \<in> set rest" by simp
    moreover from child_loop_Cons_success [OF Cons.prems(1)] obtain t
      where "child_loop d cat fid f rest t = Inr s'" by blast
    ultimately show ?thesis using Cons.IH by blast
  qed
qed

end
